theory Spec2Isabelle
  imports Main "HOL-Library.Word"
begin

section \<open>A chained hash table with string keys: the embedding of hash\_table.c\<close>

text \<open>
  The model follows \<^verbatim>\<open>hash_table.h\<close> and \<^verbatim>\<open>hash_table.c\<close>.

  \<^item> A C string is the list of its characters before the terminating NUL (so no
    element of the list is 0, which no theorem below needs); a character is one byte.
    \<^verbatim>\<open>!strcmp(a, b)\<close> holds exactly when the two lists are equal.
  \<^item> \<^verbatim>\<open>unsigned int\<close> and \<^verbatim>\<open>int\<close> are 32-bit words.
  \<^item> \<^verbatim>\<open>struct HT_node\<close> is a datatype with the three fields of the struct in their
    order; the \<^verbatim>\<open>next\<close> pointer is an option, \<open>None\<close> being \<^verbatim>\<open>NULL\<close>. Every node
    is owned by exactly one link, so a chain is the value of its head pointer.
  \<^item> \<^verbatim>\<open>struct HT_ht\<close> is a record; the bucket array \<^verbatim>\<open>nodes\<close> is a list of head
    pointers.
  \<^item> Undefined behaviour of the C program is an error value: a division by zero, a
    dereferenced \<^verbatim>\<open>NULL\<close>, an index outside the bucket array, a signed overflow.
    Allocation and release of memory are not modelled.
  \<^item> The helper functions whose C names begin with an underscore carry the prefix
    \<open>u_\<close> here, since an Isabelle name begins with a letter.
\<close>

type_synonym cstring = "8 word list"

datatype HT_error = Div_By_Zero | Null_Deref | Out_Of_Bounds | Signed_Overflow

datatype HT_Node = HT_Node (node_next: "HT_Node option") (node_key: cstring) (node_value: "32 word")

record HT_Ht =
  capacity :: "32 word"
  nodes :: "HT_Node option list"

subsection \<open>The hashing function\<close>

definition HASHPRIME :: "32 word" where
  "HASHPRIME = 31"

text \<open>
  The value of \<^verbatim>\<open>*key\<close>, an object of type \<^verbatim>\<open>char\<close>. Whether plain \<^verbatim>\<open>char\<close> is
  signed is left to the C implementation, so it is the parameter \<open>sc\<close> of the model:
  with a signed \<^verbatim>\<open>char\<close> a byte from 128 upwards reads as a negative number.
\<close>

definition char_value :: "bool \<Rightarrow> 8 word \<Rightarrow> int" where
  "char_value sc c = (if sc then sint c else uint c)"

text \<open>
  The loop of \<^verbatim>\<open>HT_hash\<close>: \<^verbatim>\<open>hashval = *key + HASHPRIME * hashval\<close> for each character
  up to the terminator. The character is promoted to \<^verbatim>\<open>int\<close> and then converted to
  \<^verbatim>\<open>unsigned int\<close> (reduction modulo \<open>2 ^ 32\<close>), the type of the product.
\<close>

fun hash_loop :: "bool \<Rightarrow> 32 word \<Rightarrow> cstring \<Rightarrow> 32 word" where
  "hash_loop sc hashval [] = hashval"
| "hash_loop sc hashval (c # key) =
     hash_loop sc (word_of_int (char_value sc c) + HASHPRIME * hashval) key"

text \<open>
  \<^verbatim>\<open>return hashval % size\<close>. The parameter \<^verbatim>\<open>size\<close> is an \<^verbatim>\<open>int\<close> that the remainder
  converts to \<^verbatim>\<open>unsigned int\<close>, so the 32 bits of the argument are read as unsigned.
  A remainder by zero is undefined in C.
\<close>

definition HT_hash :: "bool \<Rightarrow> cstring \<Rightarrow> 32 word \<Rightarrow> HT_error + 32 word" where
  "HT_hash sc key sz =
     (if sz = 0 then Inl Div_By_Zero else Inr (hash_loop sc 0 key mod sz))"

text \<open>
  The hash as the specification words it, on unbounded integers with the wrap-around
  written out: the accumulator starts at 0 and each byte \<open>b\<close> makes it
  \<open>(b + 31 * accumulator) mod 2 ^ 32\<close>.
\<close>

definition horner_step :: "int \<Rightarrow> int \<Rightarrow> int" where
  "horner_step accumulator b = (b + 31 * accumulator) mod 2 ^ 32"

definition horner :: "int list \<Rightarrow> int" where
  "horner bs = foldl horner_step 0 bs"

subsection \<open>Construction\<close>

text \<open>
  \<^verbatim>\<open>HT_create\<close> stores \<^verbatim>\<open>size\<close> as the capacity and sets the \<^verbatim>\<open>size\<close> slots of the
  bucket array to \<^verbatim>\<open>NULL\<close>, with the loop \<^verbatim>\<open>for (int i = 0; i < size; i++)\<close>. The
  counter is an \<^verbatim>\<open>int\<close> compared with an \<^verbatim>\<open>unsigned int\<close>: for a size above
  \<open>2 ^ 31 - 1\<close> the increment of \<^verbatim>\<open>i = INT_MAX\<close> overflows. No size is refused.
\<close>

definition HT_create :: "32 word \<Rightarrow> HT_error + HT_Ht" where
  "HT_create sz =
     (if 2 ^ 31 \<le> unat sz then Inl Signed_Overflow
      else Inr \<lparr>capacity = sz, nodes = replicate (unat sz) None\<rparr>)"

text \<open>The read \<^verbatim>\<open>h_table->nodes[hash_val]\<close>; outside the array it is undefined in C.\<close>

definition bucket :: "HT_Ht \<Rightarrow> 32 word \<Rightarrow> HT_error + HT_Node option" where
  "bucket h_table hash_val =
     (if unat hash_val < length (nodes h_table) then Inr (nodes h_table ! unat hash_val)
      else Inl Out_Of_Bounds)"

subsection \<open>Existence check and lookup\<close>

text \<open>
  \<^verbatim>\<open>_HT_check\<close>: 0 on \<^verbatim>\<open>NULL\<close>, 1 when the key of the node equals the key sought,
  otherwise the answer for \<^verbatim>\<open>node->next\<close>.
\<close>

fun u_HT_check :: "HT_Node option \<Rightarrow> cstring \<Rightarrow> 32 word" where
  "u_HT_check None key = 0"
| "u_HT_check (Some (HT_Node nx k v)) key = (if k = key then 1 else u_HT_check nx key)"

definition HT_check :: "bool \<Rightarrow> HT_Ht \<Rightarrow> cstring \<Rightarrow> HT_error + 32 word" where
  "HT_check sc h_table key =
     (case HT_hash sc key (capacity h_table) of
        Inl e \<Rightarrow> Inl e
      | Inr hash_val \<Rightarrow>
          (case bucket h_table hash_val of
             Inl e \<Rightarrow> Inl e
           | Inr node \<Rightarrow> Inr (u_HT_check node key)))"

text \<open>
  \<^verbatim>\<open>_HT_find\<close> has no test for \<^verbatim>\<open>NULL\<close>: it reads \<^verbatim>\<open>nodes->key\<close> at once, so at the
  end of a chain it dereferences \<^verbatim>\<open>NULL\<close>.
\<close>

fun u_HT_find :: "HT_Node option \<Rightarrow> cstring \<Rightarrow> HT_error + 32 word" where
  "u_HT_find None key = Inl Null_Deref"
| "u_HT_find (Some (HT_Node nx k v)) key = (if k = key then Inr v else u_HT_find nx key)"

definition HT_find :: "bool \<Rightarrow> HT_Ht \<Rightarrow> cstring \<Rightarrow> HT_error + 32 word" where
  "HT_find sc h_table key =
     (case HT_hash sc key (capacity h_table) of
        Inl e \<Rightarrow> Inl e
      | Inr hash_val \<Rightarrow>
          (case bucket h_table hash_val of
             Inl e \<Rightarrow> Inl e
           | Inr node \<Rightarrow> u_HT_find node key))"

text \<open>
  \<^verbatim>\<open>_lookup\<close> returns a pointer to a node of the table, or \<^verbatim>\<open>NULL\<close>. A node of the
  table is reached from one bucket by a number of \<^verbatim>\<open>next\<close> links, and the model names
  it so: the pair of the bucket index and that number. \<open>lookup_loop\<close> is the
  \<^verbatim>\<open>for\<close> loop; its third argument counts the links followed so far.
\<close>

type_synonym node_ptr = "(nat \<times> nat) option"

fun lookup_loop :: "HT_Node option \<Rightarrow> cstring \<Rightarrow> nat \<Rightarrow> nat option" where
  "lookup_loop None s d = None"
| "lookup_loop (Some (HT_Node nx k v)) s d =
     (if s = k then Some d else lookup_loop nx s (Suc d))"

definition u_lookup :: "bool \<Rightarrow> HT_Ht \<Rightarrow> cstring \<Rightarrow> HT_error + node_ptr" where
  "u_lookup sc h_table s =
     (case HT_hash sc s (capacity h_table) of
        Inl e \<Rightarrow> Inl e
      | Inr hash_val \<Rightarrow>
          (case bucket h_table hash_val of
             Inl e \<Rightarrow> Inl e
           | Inr np \<Rightarrow>
               Inr (case lookup_loop np s 0 of
                      None \<Rightarrow> None
                    | Some d \<Rightarrow> Some (unat hash_val, d))))"

text \<open>The node \<open>d\<close> links after the head of a chain, and the write to its value.\<close>

fun node_at :: "HT_Node option \<Rightarrow> nat \<Rightarrow> HT_Node option" where
  "node_at None d = None"
| "node_at (Some n) 0 = Some n"
| "node_at (Some (HT_Node nx k v)) (Suc d) = node_at nx d"

fun set_value_at :: "HT_Node option \<Rightarrow> nat \<Rightarrow> 32 word \<Rightarrow> HT_Node option" where
  "set_value_at None d new_value = None"
| "set_value_at (Some (HT_Node nx k v)) 0 new_value = Some (HT_Node nx k new_value)"
| "set_value_at (Some (HT_Node nx k v)) (Suc d) new_value =
     Some (HT_Node (set_value_at nx d new_value) k v)"

subsection \<open>Insertion, update and removal\<close>

text \<open>
  \<^verbatim>\<open>HT_add\<close>: the new node holds a copy of the key (the same characters) and the value,
  its \<^verbatim>\<open>next\<close> is the old head of the bucket, and it becomes the head.
\<close>

definition HT_add :: "bool \<Rightarrow> HT_Ht \<Rightarrow> cstring \<Rightarrow> 32 word \<Rightarrow> HT_error + HT_Ht" where
  "HT_add sc h_table key val =
     (case HT_hash sc key (capacity h_table) of
        Inl e \<Rightarrow> Inl e
      | Inr hash_val \<Rightarrow>
          (case bucket h_table hash_val of
             Inl e \<Rightarrow> Inl e
           | Inr head \<Rightarrow>
               Inr (h_table\<lparr>nodes :=
                 (nodes h_table)[unat hash_val := Some (HT_Node head key val)]\<rparr>)))"

text \<open>\<^verbatim>\<open>HT_change\<close> writes through the pointer of \<^verbatim>\<open>_lookup\<close> without testing it.\<close>

definition HT_change :: "bool \<Rightarrow> HT_Ht \<Rightarrow> cstring \<Rightarrow> 32 word \<Rightarrow> HT_error + HT_Ht" where
  "HT_change sc h_table key new_value =
     (case u_lookup sc h_table key of
        Inl e \<Rightarrow> Inl e
      | Inr None \<Rightarrow> Inl Null_Deref
      | Inr (Some (b, d)) \<Rightarrow>
          Inr (h_table\<lparr>nodes :=
            (nodes h_table)[b := set_value_at (nodes h_table ! b) d new_value]\<rparr>))"

text \<open>
  \<^verbatim>\<open>_HT_remove_node\<close> works on the slot \<^verbatim>\<open>*node\<close>; the model returns the new content
  of the slot. In the order of the source:
  \<^item> \<^verbatim>\<open>(*node)->key\<close> is read with no test for \<^verbatim>\<open>NULL\<close>;
  \<^item> when that key matches, the node is freed and the slot is set to \<^verbatim>\<open>NULL\<close>
    (\<^verbatim>\<open>*node = NULL\<close>);
  \<^item> \<^verbatim>\<open>(*node)->next->key\<close> is read with no test for \<^verbatim>\<open>NULL\<close>;
  \<^item> when that key matches, \<^verbatim>\<open>prev->next = next\<close> links the node to the successor of
    its successor;
  \<^item> otherwise the function calls itself on the slot \<^verbatim>\<open>(*node)->next\<close>.
\<close>

fun u_HT_remove_node :: "HT_Node option \<Rightarrow> cstring \<Rightarrow> HT_error + HT_Node option" where
  "u_HT_remove_node None key = Inl Null_Deref"
| "u_HT_remove_node (Some (HT_Node nx k v)) key =
     (if k = key then Inr None
      else (case nx of
              None \<Rightarrow> Inl Null_Deref
            | Some (HT_Node nx' k' v') \<Rightarrow>
                if k' = key then Inr (Some (HT_Node nx' k v))
                else (case u_HT_remove_node nx key of
                        Inl e \<Rightarrow> Inl e
                      | Inr nx_new \<Rightarrow> Inr (Some (HT_Node nx_new k v)))))"

definition HT_remove :: "bool \<Rightarrow> HT_Ht \<Rightarrow> cstring \<Rightarrow> HT_error + HT_Ht" where
  "HT_remove sc h_table key =
     (case HT_hash sc key (capacity h_table) of
        Inl e \<Rightarrow> Inl e
      | Inr hash_val \<Rightarrow>
          (case bucket h_table hash_val of
             Inl e \<Rightarrow> Inl e
           | Inr node \<Rightarrow>
               (case u_HT_remove_node node key of
                  Inl e \<Rightarrow> Inl e
                | Inr node_new \<Rightarrow>
                    Inr (h_table\<lparr>nodes := (nodes h_table)[unat hash_val := node_new]\<rparr>))))"

subsection \<open>Reading a table\<close>

text \<open>The entries of a chain from head to tail, as \<^verbatim>\<open>_HT_print\<close> walks them.\<close>

fun chain_entries :: "HT_Node option \<Rightarrow> (cstring \<times> 32 word) list" where
  "chain_entries None = []"
| "chain_entries (Some (HT_Node nx k v)) = (k, v) # chain_entries nx"

text \<open>The bucket array of a table has as many slots as the capacity says.\<close>

definition HT_wf :: "HT_Ht \<Rightarrow> bool" where
  "HT_wf h_table = (length (nodes h_table) = unat (capacity h_table))"

text \<open>
  What the specification asks of an update and of a removal, on the entries of a chain:
  the first entry with the key gets the new value, respectively leaves the chain, and
  every other entry stays where it is.
\<close>

fun change_first ::
  "cstring \<Rightarrow> 32 word \<Rightarrow> (cstring \<times> 32 word) list \<Rightarrow> (cstring \<times> 32 word) list" where
  "change_first key new_value [] = []"
| "change_first key new_value ((k, v) # es) =
     (if k = key then (k, new_value) # es else (k, v) # change_first key new_value es)"

fun remove_first :: "cstring \<Rightarrow> (cstring \<times> 32 word) list \<Rightarrow> (cstring \<times> 32 word) list" where
  "remove_first key [] = []"
| "remove_first key ((k, v) # es) = (if k = key then es else (k, v) # remove_first key es)"

section \<open>Properties\<close>

text \<open>Facts for the evaluation of the operations on concrete tables.\<close>

lemma replicate_two: "replicate 2 x = [x, x]"
  by (simp add: numeral_2_eq_2)

lemmas HT_eval = HT_hash_def HASHPRIME_def char_value_def bucket_def HT_check_def HT_find_def
  HT_add_def HT_remove_def HT_change_def u_lookup_def HT_create_def HT_wf_def

subsection \<open>Hash range and hash value\<close>

lemma uint_hash_loop:
  "uint (hash_loop sc hashval key) = foldl horner_step (uint hashval) (map (char_value sc) key)"
proof (induction key arbitrary: hashval)
  case Nil
  show ?case by simp
next
  case (Cons c key)
  have "uint (word_of_int (char_value sc c) + HASHPRIME * hashval :: 32 word)
          = horner_step (uint hashval) (char_value sc c)"
    by (simp add: horner_step_def HASHPRIME_def uint_word_ariths uint_word_of_int
        mod_add_eq mod_simps)
  with Cons.IH show ?case by simp
qed

lemma wrap_byte:
  fixes u :: int
  assumes "0 \<le> u" and "u < 256"
  shows "(u + 128) mod 256 - 128 = (if 128 \<le> u then u - 256 else u)"
proof (cases "128 \<le> u")
  case True
  have "u - 128 + 256 = u + 128" by simp
  then have "(u + 128) mod 256 = (u - 128) mod 256"
    using mod_add_self2 [of "u - 128" 256] by (simp only:)
  also have "\<dots> = u - 128" using True assms by (simp add: mod_pos_pos_trivial)
  finally show ?thesis using True by simp
next
  case False
  then have "(u + 128) mod 256 = u + 128" using assms by (simp add: mod_pos_pos_trivial)
  then show ?thesis using False by simp
qed

lemma sint_byte: "sint (c :: 8 word) = (if 128 \<le> uint c then uint c - 256 else uint c)"
proof -
  have b: "0 \<le> uint c" "uint c < 256"
    using uint_lt2p [of c] by simp_all
  have "sint c = (uint c + 128) mod 256 - 128"
    by (simp add: sint_uint signed_take_bit_eq_take_bit_shift take_bit_eq_mod)
  then show ?thesis using wrap_byte [OF b] by simp
qed

lemma char_value_byte:
  "char_value sc c = (if sc \<and> 128 \<le> uint c then uint c - 256 else uint c)"
  by (simp add: char_value_def sint_byte)

lemma char_value_low:
  "\<not> sc \<or> (\<forall>c\<in>set key. uint c < 128) \<Longrightarrow> map (char_value sc) key = map uint key"
  by (auto simp: char_value_byte)

text \<open>
  C5, as the claim states it, fails where plain \<^verbatim>\<open>char\<close> is signed: the key of the one
  byte 255 and the capacity 11 hash to 3, and the Horner fold over the bytes of the key,
  reduced modulo 11, is 2.
\<close>

theorem HT_hash_signed_char_counterexample:
  "HT_hash True [255] 11 = Inr 3
   \<and> horner (map uint [255 :: 8 word]) mod uint (11 :: 32 word) = 2
   \<and> \<not> (\<exists>h. HT_hash True [255] 11 = Inr h
             \<and> uint h = horner (map uint [255 :: 8 word]) mod uint (11 :: 32 word))"
  by (simp add: HT_eval horner_def horner_step_def)

text \<open>
  C5, amended. For every key and every capacity other than zero, \<open>HT_hash\<close> returns the
  Horner fold over the characters of the key in order (accumulator 0 at the start, then
  \<open>accumulator = c + 31 * accumulator\<close> modulo \<open>2 ^ 32\<close>), reduced modulo the capacity,
  where \<open>c\<close> is the byte read as a plain \<^verbatim>\<open>char\<close>: the byte minus 256 when plain
  \<^verbatim>\<open>char\<close> is signed and the byte is 128 or more, the byte itself otherwise. So it is
  the fold over the bytes of the key when plain \<^verbatim>\<open>char\<close> is unsigned or every byte of the
  key is below 128. The hash of the empty string is 0.
\<close>

theorem HT_hash_horner_bytes:
  assumes "sz \<noteq> 0"
  shows "(\<exists>h. HT_hash sc key sz = Inr h
            \<and> uint h = horner (map (\<lambda>c. if sc \<and> 128 \<le> uint c then uint c - 256 else uint c) key)
                          mod uint sz
            \<and> (\<not> sc \<or> (\<forall>c\<in>set key. uint c < 128)
                 \<longrightarrow> uint h = horner (map uint key) mod uint sz))
         \<and> HT_hash sc [] sz = Inr 0"
proof -
  have eq: "map (char_value sc) key
      = map (\<lambda>c. if sc \<and> 128 \<le> uint c then uint c - 256 else uint c) key"
    by (simp add: char_value_byte)
  have h: "HT_hash sc key sz = Inr (hash_loop sc 0 key mod sz)"
    using assms by (simp add: HT_hash_def)
  have u: "uint (hash_loop sc 0 key mod sz) = horner (map (char_value sc) key) mod uint sz"
    by (simp add: horner_def uint_mod uint_hash_loop)
  have low: "uint (hash_loop sc 0 key mod sz) = horner (map uint key) mod uint sz"
    if "\<not> sc \<or> (\<forall>c\<in>set key. uint c < 128)"
    using u char_value_low [OF that] by simp
  have e: "HT_hash sc [] sz = Inr 0"
    using assms by (simp add: HT_hash_def)
  from h u eq low e show ?thesis by simp
qed

theorem HT_hash_horner_bytes_witness:
  "(11 :: 32 word) \<noteq> 0
   \<and> HT_hash True [255] 11 = Inr 3
   \<and> horner (map (\<lambda>c. if True \<and> 128 \<le> uint c then uint c - 256 else uint c) [255 :: 8 word])
        = 4294967295
   \<and> (4294967295 :: int) mod uint (11 :: 32 word) = 3
   \<and> uint (97 :: 8 word) < 128 \<and> uint (98 :: 8 word) < 128
   \<and> HT_hash True [97, 98] 10 = Inr 5
   \<and> horner (map uint [97, 98 :: 8 word]) = 3105
   \<and> HT_hash False [255] 11 = Inr 2
   \<and> horner (map uint [255 :: 8 word]) = 255
   \<and> HT_hash True [] 11 = Inr 0"
proof -
  have nz: "(11 :: 32 word) \<noteq> 0" "(10 :: 32 word) \<noteq> 0" by simp_all
  have "horner (map uint [97, 98 :: 8 word]) = 3105" "horner (map uint [255 :: 8 word]) = 255"
    "horner (map (\<lambda>c. if True \<and> 128 \<le> uint c then uint c - 256 else uint c) [255 :: 8 word])
        = 4294967295"
    by (simp_all add: horner_def horner_step_def)
  then show ?thesis
    using nz HT_hash_horner_bytes [OF nz(1), of True "[255]"]
      HT_hash_horner_bytes [OF nz(2), of True "[97, 98]"]
      HT_hash_horner_bytes [OF nz(1), of False "[255]"]
    by (simp add: HT_eval)
qed

text \<open>
  C6. For every key and every capacity \<open>c > 0\<close> the hash is an index in range:
  \<open>0 \<le> hash(k, c) < c\<close>.
\<close>

theorem HT_hash_range:
  assumes "sz \<noteq> 0"
  shows "\<exists>h. HT_hash sc key sz = Inr h \<and> 0 \<le> uint h \<and> uint h < uint sz"
proof -
  have "hash_loop sc 0 key mod sz < sz"
    using assms by (simp add: word_mod_less_divisor word_greater_zero_iff)
  then show ?thesis
    using assms by (simp add: HT_hash_def word_less_def)
qed

theorem HT_hash_range_witness:
  "(7 :: 32 word) \<noteq> 0
   \<and> (\<exists>h. HT_hash True [120] 7 = Inr h \<and> 0 \<le> uint h \<and> uint h < uint (7 :: 32 word))
   \<and> HT_hash True [120] 7 = Inr 1"
proof -
  have nz: "(7 :: 32 word) \<noteq> 0" by simp
  have "HT_hash True [120] 7 = Inr 1"
    by (simp add: HT_hash_def HASHPRIME_def char_value_def)
  then show ?thesis
    using nz HT_hash_range [OF nz, of True "[120]"] by simp
qed

subsection \<open>Buckets and chains\<close>

lemma bucket_wf:
  "HT_wf t \<Longrightarrow> h < capacity t \<Longrightarrow> bucket t h = Inr (nodes t ! unat h)"
  by (simp add: bucket_def HT_wf_def word_less_nat_alt)

lemma hash_in_table:
  assumes "capacity t \<noteq> 0"
  shows "\<exists>h. HT_hash sc key (capacity t) = Inr h \<and> h < capacity t"
  using assms by (simp add: HT_hash_def word_mod_less_divisor word_greater_zero_iff)

lemma HT_add_eq:
  assumes "HT_wf t" "HT_hash sc key (capacity t) = Inr h" "h < capacity t"
  shows "HT_add sc t key v =
           Inr (t\<lparr>nodes := (nodes t)[unat h := Some (HT_Node (nodes t ! unat h) key v)]\<rparr>)"
  using assms by (simp add: HT_add_def bucket_wf)

lemma u_HT_check_01: "u_HT_check c key = 0 \<or> u_HT_check c key = 1"
  by (induction c key rule: u_HT_check.induct) auto

lemma u_HT_check_present:
  "u_HT_check c key = 1 \<longleftrightarrow> key \<in> fst ` set (chain_entries c)"
  by (induction c key rule: u_HT_check.induct) auto

lemma lookup_loop_shift:
  "lookup_loop c s (Suc d) = map_option Suc (lookup_loop c s d)"
  by (induction c s d rule: lookup_loop.induct) auto

lemma lookup_loop_None:
  "lookup_loop c s d = None \<longleftrightarrow> u_HT_check c s = 0"
  by (induction c s d rule: lookup_loop.induct) auto

lemma lookup_loop_Some:
  "lookup_loop c s 0 = Some d \<Longrightarrow>
     (\<exists>nx v. node_at c d = Some (HT_Node nx s v) \<and> u_HT_find c s = Inr v)
     \<and> (\<forall>j<d. \<exists>nx k v. node_at c j = Some (HT_Node nx k v) \<and> k \<noteq> s)"
proof (induction c arbitrary: d rule: chain_entries.induct)
  case 1
  then show ?case by simp
next
  case (2 nx k v)
  show ?case
  proof (cases "s = k")
    case True
    with 2 show ?thesis by simp
  next
    case False
    with "2.prems" obtain d' where d: "d = Suc d'" "lookup_loop nx s 0 = Some d'"
      by (auto simp: lookup_loop_shift)
    from "2.IH" [OF d(2)] False d(1) show ?thesis
      by (auto simp: less_Suc_eq_0_disj)
  qed
qed

lemma chain_entries_set_value_at:
  "lookup_loop c s 0 = Some d \<Longrightarrow>
     chain_entries (set_value_at c d w) = change_first s w (chain_entries c)"
proof (induction c arbitrary: d rule: chain_entries.induct)
  case 1
  then show ?case by simp
next
  case (2 nx k v)
  show ?case
  proof (cases "s = k")
    case True
    with 2 show ?thesis by simp
  next
    case False
    with "2.prems" obtain d' where d: "d = Suc d'" "lookup_loop nx s 0 = Some d'"
      by (auto simp: lookup_loop_shift)
    from "2.IH" [OF d(2)] False d(1) show ?thesis
      by auto
  qed
qed

lemma u_HT_find_change_first:
  "key \<in> fst ` set (chain_entries c) \<Longrightarrow> chain_entries c' = change_first key w (chain_entries c)
    \<Longrightarrow> u_HT_find c' key = Inr w"
proof (induction c arbitrary: c' rule: chain_entries.induct)
  case 1
  then show ?case by simp
next
  case (2 nx k v)
  then show ?case
    apply (cases c' rule: chain_entries.cases)
     apply (auto split: if_splits)
    done
qed

lemma u_HT_remove_node_interior:
  "key \<in> fst ` set (chain_entries nx) \<Longrightarrow> k \<noteq> key \<Longrightarrow>
    \<exists>c'. u_HT_remove_node (Some (HT_Node nx k v)) key = Inr c'
      \<and> chain_entries c' = remove_first key (chain_entries (Some (HT_Node nx k v)))"
proof (induction nx arbitrary: k v rule: chain_entries.induct)
  case 1
  then show ?case by simp
next
  case (2 nx' k' v')
  show ?case
  proof (cases "k' = key")
    case True
    with 2 show ?thesis by simp
  next
    case False
    with "2.prems" have "key \<in> fst ` set (chain_entries nx')" by auto
    from "2.IH" [OF this False, of v'] obtain c' where
      "u_HT_remove_node (Some (HT_Node nx' k' v')) key = Inr c'"
      "chain_entries c' = remove_first key (chain_entries (Some (HT_Node nx' k' v')))"
      by blast
    with False "2.prems"(2) show ?thesis by simp
  qed
qed

lemma u_HT_remove_node_present:
  assumes "key \<in> fst ` set (chain_entries c)"
  shows "\<exists>c'. u_HT_remove_node c key = Inr c'"
proof (cases c rule: chain_entries.cases)
  case 1
  with assms show ?thesis by simp
next
  case (2 nx k v)
  show ?thesis
  proof (cases "k = key")
    case True
    with 2 show ?thesis by simp
  next
    case False
    with assms 2 have "key \<in> fst ` set (chain_entries nx)" by auto
    from u_HT_remove_node_interior [OF this False, of v] 2 show ?thesis by blast
  qed
qed

lemma chain_entries_inject: "chain_entries c = chain_entries c' \<Longrightarrow> c = c'"
proof (induction c arbitrary: c' rule: chain_entries.induct)
  case 1
  then show ?case by (cases c' rule: chain_entries.cases) auto
next
  case (2 nx k v)
  then show ?case by (cases c' rule: chain_entries.cases) auto
qed

lemma u_HT_find_present:
  "key \<in> fst ` set (chain_entries c) \<Longrightarrow> \<exists>v. u_HT_find c key = Inr v"
  by (induction c key rule: u_HT_find.induct) auto

lemma change_first_keys: "map fst (change_first key w es) = map fst es"
  by (induction key w es rule: change_first.induct) auto

text \<open>
  Every table that \<open>HT_create\<close> returns has one slot for each bucket, and the
  operations keep it so and keep the capacity.
\<close>

lemma HT_create_wf: "HT_create sz = Inr t \<Longrightarrow> HT_wf t \<and> capacity t = sz"
  by (auto simp: HT_create_def HT_wf_def split: if_splits)

lemma HT_add_wf: "HT_wf t \<Longrightarrow> HT_add sc t key v = Inr t' \<Longrightarrow> HT_wf t' \<and> capacity t' = capacity t"
  by (auto simp: HT_add_def HT_wf_def split: sum.splits)

lemma HT_change_wf:
  "HT_wf t \<Longrightarrow> HT_change sc t key v = Inr t' \<Longrightarrow> HT_wf t' \<and> capacity t' = capacity t"
  by (auto simp: HT_change_def HT_wf_def split: sum.splits option.splits)

lemma HT_remove_wf:
  "HT_wf t \<Longrightarrow> HT_remove sc t key = Inr t' \<Longrightarrow> HT_wf t' \<and> capacity t' = capacity t"
  by (auto simp: HT_remove_def HT_wf_def split: sum.splits)

subsection \<open>Insertion\<close>

text \<open>
  C4. After \<open>add(table, k, v)\<close>, \<open>check(table, k)\<close> returns true (the \<^verbatim>\<open>int\<close> 1) and
  \<open>find(table, k)\<close> returns \<open>v\<close>. The table has one slot for each bucket and a capacity
  other than zero; that \<open>k\<close> was absent before is not needed, since the new node is the
  head of its chain.
\<close>

theorem HT_add_roundtrip:
  assumes "HT_wf t" and "capacity t \<noteq> 0"
  shows "\<exists>t'. HT_add sc t k v = Inr t' \<and> HT_check sc t' k = Inr 1 \<and> HT_find sc t' k = Inr v"
proof -
  from hash_in_table [OF assms(2)] obtain h where
    h: "HT_hash sc k (capacity t) = Inr h" "h < capacity t" by blast
  let ?t' = "t\<lparr>nodes := (nodes t)[unat h := Some (HT_Node (nodes t ! unat h) k v)]\<rparr>"
  have add: "HT_add sc t k v = Inr ?t'"
    using assms(1) h by (rule HT_add_eq)
  have wf: "HT_wf ?t'" using assms(1) by (simp add: HT_wf_def)
  have lt: "unat h < length (nodes t)"
    using assms(1) h(2) by (simp add: HT_wf_def word_less_nat_alt)
  have b: "bucket ?t' h = Inr (Some (HT_Node (nodes t ! unat h) k v))"
    using lt by (simp add: bucket_def)
  have "HT_check sc ?t' k = Inr 1" using h(1) b by (simp add: HT_check_def)
  moreover have "HT_find sc ?t' k = Inr v" using h(1) b by (simp add: HT_find_def)
  ultimately show ?thesis using add by simp
qed

theorem HT_add_roundtrip_witness:
  "HT_wf \<lparr>capacity = 2, nodes = [Some (HT_Node None [120] 5), None]\<rparr>
   \<and> capacity \<lparr>capacity = 2, nodes = [Some (HT_Node None [120] 5), None]\<rparr> \<noteq> 0
   \<and> HT_check True \<lparr>capacity = 2, nodes = [Some (HT_Node None [120] 5), None]\<rparr> [122] = Inr 0
   \<and> (\<exists>t'. HT_add True \<lparr>capacity = 2, nodes = [Some (HT_Node None [120] 5), None]\<rparr> [122] 9
               = Inr t'
            \<and> HT_check True t' [122] = Inr 1 \<and> HT_find True t' [122] = Inr 9)
   \<and> HT_add True \<lparr>capacity = 2, nodes = [Some (HT_Node None [120] 5), None]\<rparr> [122] 9
        = Inr \<lparr>capacity = 2,
               nodes = [Some (HT_Node (Some (HT_Node None [120] 5)) [122] 9), None]\<rparr>"
  using HT_add_roundtrip
    [of "\<lparr>capacity = 2, nodes = [Some (HT_Node None [120] 5), None]\<rparr>" True "[122]" 9]
  by (simp add: HT_eval)

text \<open>
  C8. \<open>add(table, key, value)\<close> changes only the bucket at index \<open>hash(key, capacity)\<close>:
  the new head of that chain is a node with the characters of the key and the value,
  whose successor is the previous head, so the entries of the chain are the new pair
  followed by the previous entries in their order; the capacity, the number of buckets
  and every other bucket are unchanged.
\<close>

theorem HT_add_frame:
  assumes "HT_wf t" and "capacity t \<noteq> 0"
  shows "\<exists>h t'. HT_hash sc key (capacity t) = Inr h \<and> unat h < length (nodes t)
           \<and> HT_add sc t key v = Inr t'
           \<and> nodes t' ! unat h = Some (HT_Node (nodes t ! unat h) key v)
           \<and> chain_entries (nodes t' ! unat h) = (key, v) # chain_entries (nodes t ! unat h)
           \<and> capacity t' = capacity t
           \<and> length (nodes t') = length (nodes t)
           \<and> (\<forall>i. i \<noteq> unat h \<longrightarrow> nodes t' ! i = nodes t ! i)"
proof -
  from hash_in_table [OF assms(2)] obtain h where
    h: "HT_hash sc key (capacity t) = Inr h" "h < capacity t" by blast
  have lt: "unat h < length (nodes t)"
    using assms(1) h(2) by (simp add: HT_wf_def word_less_nat_alt)
  have add: "HT_add sc t key v =
      Inr (t\<lparr>nodes := (nodes t)[unat h := Some (HT_Node (nodes t ! unat h) key v)]\<rparr>)"
    using assms(1) h by (rule HT_add_eq)
  show ?thesis using h(1) lt add by simp
qed

theorem HT_add_frame_witness:
  "HT_wf \<lparr>capacity = 2, nodes = [Some (HT_Node None [120] 5), None]\<rparr>
   \<and> capacity \<lparr>capacity = 2, nodes = [Some (HT_Node None [120] 5), None]\<rparr> \<noteq> 0
   \<and> HT_hash False [121] 2 = Inr 1
   \<and> HT_add False \<lparr>capacity = 2, nodes = [Some (HT_Node None [120] 5), None]\<rparr> [121] 4
        = Inr \<lparr>capacity = 2,
               nodes = [Some (HT_Node None [120] 5), Some (HT_Node None [121] 4)]\<rparr>
   \<and> (\<exists>h t'. HT_hash False [121]
                 (capacity \<lparr>capacity = 2, nodes = [Some (HT_Node None [120] 5), None]\<rparr>) = Inr h
          \<and> HT_add False \<lparr>capacity = 2, nodes = [Some (HT_Node None [120] 5), None]\<rparr> [121] 4
               = Inr t'
          \<and> chain_entries (nodes t' ! unat h) = [([121], 4)]
          \<and> capacity t' = 2 \<and> length (nodes t') = 2
          \<and> nodes t' ! 0 = Some (HT_Node None [120] 5))"
  using HT_add_frame
    [of "\<lparr>capacity = 2, nodes = [Some (HT_Node None [120] 5), None]\<rparr>" False "[121]" 4]
  by (simp add: HT_eval)

subsection \<open>Update\<close>

lemma HT_change_present:
  assumes "HT_wf t" and "HT_hash sc k (capacity t) = Inr h" and "h < capacity t"
    and "u_HT_check (nodes t ! unat h) k = 1"
  shows "\<exists>d. lookup_loop (nodes t ! unat h) k 0 = Some d
           \<and> u_lookup sc t k = Inr (Some (unat h, d))
           \<and> HT_change sc t k w =
               Inr (t\<lparr>nodes := (nodes t)[unat h := set_value_at (nodes t ! unat h) d w]\<rparr>)"
proof -
  have "lookup_loop (nodes t ! unat h) k 0 \<noteq> None"
    using assms(4) by (simp add: lookup_loop_None)
  then obtain d where d: "lookup_loop (nodes t ! unat h) k 0 = Some d" by blast
  have "u_lookup sc t k = Inr (Some (unat h, d))"
    using assms(1-3) d by (simp add: u_lookup_def bucket_wf)
  then show ?thesis using d by (simp add: HT_change_def)
qed

lemma HT_change_effect:
  assumes "HT_wf t" and "HT_hash sc k (capacity t) = Inr h" and "h < capacity t"
    and "u_HT_check (nodes t ! unat h) k = 1"
  shows "\<exists>t'. HT_change sc t k w = Inr t'
           \<and> chain_entries (nodes t' ! unat h) = change_first k w (chain_entries (nodes t ! unat h))
           \<and> capacity t' = capacity t
           \<and> length (nodes t') = length (nodes t)
           \<and> (\<forall>i. i \<noteq> unat h \<longrightarrow> nodes t' ! i = nodes t ! i)
           \<and> HT_find sc t' k = Inr w"
proof -
  from HT_change_present [OF assms, of w] obtain d where
    d: "lookup_loop (nodes t ! unat h) k 0 = Some d"
    and ch: "HT_change sc t k w =
               Inr (t\<lparr>nodes := (nodes t)[unat h := set_value_at (nodes t ! unat h) d w]\<rparr>)"
    by blast
  let ?c' = "set_value_at (nodes t ! unat h) d w"
  let ?t' = "t\<lparr>nodes := (nodes t)[unat h := ?c']\<rparr>"
  have lt: "unat h < length (nodes t)"
    using assms(1,3) by (simp add: HT_wf_def word_less_nat_alt)
  have ents: "chain_entries ?c' = change_first k w (chain_entries (nodes t ! unat h))"
    using d by (rule chain_entries_set_value_at)
  have "k \<in> fst ` set (chain_entries (nodes t ! unat h))"
    using assms(4) by (simp add: u_HT_check_present)
  then have "u_HT_find ?c' k = Inr w"
    using ents by (rule u_HT_find_change_first)
  moreover have "bucket ?t' h = Inr ?c'" using lt by (simp add: bucket_def)
  ultimately have "HT_find sc ?t' k = Inr w"
    using assms(2) by (simp add: HT_find_def)
  then show ?thesis using ch ents lt by simp
qed

text \<open>
  C7. For a key present in the table, \<open>change(table, k, v2)\<close> overwrites the value of the
  first entry of the bucket's chain whose key is \<open>k\<close>, and nothing else: the entries of
  the chain are the same otherwise, and so are the capacity and the other buckets;
  afterwards \<open>find(table, k) = v2\<close>. In particular \<open>add(table, k, v1)\<close> followed by
  \<open>change(table, k, v2)\<close> gives \<open>find(table, k) = v2\<close>.
\<close>

theorem HT_change_first_match:
  assumes "HT_wf t" and "capacity t \<noteq> 0"
  shows "(HT_check sc t k = Inr 1 \<longrightarrow>
            (\<exists>h t'. HT_hash sc k (capacity t) = Inr h
               \<and> HT_change sc t k v2 = Inr t'
               \<and> chain_entries (nodes t' ! unat h)
                   = change_first k v2 (chain_entries (nodes t ! unat h))
               \<and> capacity t' = capacity t
               \<and> length (nodes t') = length (nodes t)
               \<and> (\<forall>i. i \<noteq> unat h \<longrightarrow> nodes t' ! i = nodes t ! i)
               \<and> HT_find sc t' k = Inr v2))
       \<and> (\<exists>t1 t2. HT_add sc t k v1 = Inr t1 \<and> HT_change sc t1 k v2 = Inr t2
               \<and> HT_find sc t2 k = Inr v2)"
proof
  from hash_in_table [OF assms(2)] obtain h where
    h: "HT_hash sc k (capacity t) = Inr h" "h < capacity t" by blast
  show "HT_check sc t k = Inr 1 \<longrightarrow>
            (\<exists>h t'. HT_hash sc k (capacity t) = Inr h
               \<and> HT_change sc t k v2 = Inr t'
               \<and> chain_entries (nodes t' ! unat h)
                   = change_first k v2 (chain_entries (nodes t ! unat h))
               \<and> capacity t' = capacity t
               \<and> length (nodes t') = length (nodes t)
               \<and> (\<forall>i. i \<noteq> unat h \<longrightarrow> nodes t' ! i = nodes t ! i)
               \<and> HT_find sc t' k = Inr v2)"
  proof
    assume "HT_check sc t k = Inr 1"
    then have "u_HT_check (nodes t ! unat h) k = 1"
      using assms(1) h by (simp add: HT_check_def bucket_wf)
    from HT_change_effect [OF assms(1) h this, of v2] h(1) show
      "\<exists>h t'. HT_hash sc k (capacity t) = Inr h
               \<and> HT_change sc t k v2 = Inr t'
               \<and> chain_entries (nodes t' ! unat h)
                   = change_first k v2 (chain_entries (nodes t ! unat h))
               \<and> capacity t' = capacity t
               \<and> length (nodes t') = length (nodes t)
               \<and> (\<forall>i. i \<noteq> unat h \<longrightarrow> nodes t' ! i = nodes t ! i)
               \<and> HT_find sc t' k = Inr v2"
      by blast
  qed
  let ?t1 = "t\<lparr>nodes := (nodes t)[unat h := Some (HT_Node (nodes t ! unat h) k v1)]\<rparr>"
  have add: "HT_add sc t k v1 = Inr ?t1"
    using assms(1) h by (rule HT_add_eq)
  have lt: "unat h < length (nodes t)"
    using assms(1) h(2) by (simp add: HT_wf_def word_less_nat_alt)
  have wf1: "HT_wf ?t1" using assms(1) by (simp add: HT_wf_def)
  have h1: "HT_hash sc k (capacity ?t1) = Inr h" "h < capacity ?t1" using h by simp_all
  have "u_HT_check (nodes ?t1 ! unat h) k = 1" using lt by simp
  from HT_change_effect [OF wf1 h1 this, of v2] add
  show "\<exists>t1 t2. HT_add sc t k v1 = Inr t1 \<and> HT_change sc t1 k v2 = Inr t2
               \<and> HT_find sc t2 k = Inr v2"
    by blast
qed

theorem HT_change_first_match_witness:
  "HT_wf \<lparr>capacity = 1,
      nodes = [Some (HT_Node (Some (HT_Node (Some (HT_Node None [97] 3)) [98] 2)) [97] 1)]\<rparr>
   \<and> capacity \<lparr>capacity = 1,
      nodes = [Some (HT_Node (Some (HT_Node (Some (HT_Node None [97] 3)) [98] 2)) [97] 1)]\<rparr> \<noteq> 0
   \<and> HT_check True \<lparr>capacity = 1,
      nodes = [Some (HT_Node (Some (HT_Node (Some (HT_Node None [97] 3)) [98] 2)) [97] 1)]\<rparr>
        [97] = Inr 1
   \<and> HT_change True \<lparr>capacity = 1,
      nodes = [Some (HT_Node (Some (HT_Node (Some (HT_Node None [97] 3)) [98] 2)) [97] 1)]\<rparr>
        [97] 7
       = Inr \<lparr>capacity = 1,
          nodes = [Some (HT_Node (Some (HT_Node (Some (HT_Node None [97] 3)) [98] 2)) [97] 7)]\<rparr>
   \<and> HT_find True \<lparr>capacity = 1,
      nodes = [Some (HT_Node (Some (HT_Node (Some (HT_Node None [97] 3)) [98] 2)) [97] 7)]\<rparr>
        [97] = Inr 7
   \<and> HT_change True \<lparr>capacity = 1,
      nodes = [Some (HT_Node (Some (HT_Node (Some (HT_Node None [97] 3)) [98] 2)) [97] 1)]\<rparr>
        [98] 8
       = Inr \<lparr>capacity = 1,
          nodes = [Some (HT_Node (Some (HT_Node (Some (HT_Node None [97] 3)) [98] 8)) [97] 1)]\<rparr>
   \<and> (\<exists>t1 t2. HT_add True \<lparr>capacity = 1,
      nodes = [Some (HT_Node (Some (HT_Node (Some (HT_Node None [97] 3)) [98] 2)) [97] 1)]\<rparr>
        [99] 4 = Inr t1
        \<and> HT_change True t1 [99] 6 = Inr t2 \<and> HT_find True t2 [99] = Inr 6)"
  using HT_change_first_match
    [of "\<lparr>capacity = 1,
      nodes = [Some (HT_Node (Some (HT_Node (Some (HT_Node None [97] 3)) [98] 2)) [97] 1)]\<rparr>"
      True "[97]" 7]
    HT_change_first_match
    [of "\<lparr>capacity = 1,
      nodes = [Some (HT_Node (Some (HT_Node (Some (HT_Node None [97] 3)) [98] 2)) [97] 1)]\<rparr>"
      True "[99]" 6 4]
  by (simp add: HT_eval)

subsection \<open>The recursive scans and the iterative one\<close>

text \<open>
  C9. \<open>check\<close> returns true exactly when \<^verbatim>\<open>_lookup\<close> returns a node and false exactly
  when it returns \<^verbatim>\<open>NULL\<close>. The node \<^verbatim>\<open>_lookup\<close> returns holds the key, no node before
  it in the chain does, \<open>find\<close> returns its value, and \<open>change\<close> writes to it.
\<close>

theorem scans_agree:
  assumes "HT_wf t" and "capacity t \<noteq> 0"
  shows "(HT_check sc t key = Inr 1 \<longleftrightarrow> (\<exists>p. u_lookup sc t key = Inr (Some p)))
       \<and> (HT_check sc t key = Inr 0 \<longleftrightarrow> u_lookup sc t key = Inr None)
       \<and> (\<forall>b d. u_lookup sc t key = Inr (Some (b, d)) \<longrightarrow>
            (\<exists>nx v. node_at (nodes t ! b) d = Some (HT_Node nx key v)
               \<and> HT_find sc t key = Inr v
               \<and> (\<forall>j<d. \<exists>nx' k' v'. node_at (nodes t ! b) j = Some (HT_Node nx' k' v')
                                       \<and> k' \<noteq> key)
               \<and> (\<forall>w. HT_change sc t key w =
                     Inr (t\<lparr>nodes := (nodes t)[b := set_value_at (nodes t ! b) d w]\<rparr>))))"
proof -
  from hash_in_table [OF assms(2)] obtain h where
    h: "HT_hash sc key (capacity t) = Inr h" "h < capacity t" by blast
  let ?c = "nodes t ! unat h"
  have b: "bucket t h = Inr ?c" using assms(1) h(2) by (rule bucket_wf)
  have chk: "HT_check sc t key = Inr (u_HT_check ?c key)"
    using h(1) b by (simp add: HT_check_def)
  have fnd: "HT_find sc t key = u_HT_find ?c key"
    using h(1) b by (simp add: HT_find_def)
  have lk: "u_lookup sc t key =
      Inr (case lookup_loop ?c key 0 of None \<Rightarrow> None | Some d \<Rightarrow> Some (unat h, d))"
    using h(1) b by (simp add: u_lookup_def)
  have one: "HT_check sc t key = Inr 1 \<longleftrightarrow> (\<exists>p. u_lookup sc t key = Inr (Some p))"
  proof (cases "lookup_loop ?c key 0")
    case None
    then have "u_HT_check ?c key = 0" by (simp add: lookup_loop_None)
    with None chk lk show ?thesis by simp
  next
    case (Some d)
    then have "u_HT_check ?c key \<noteq> 0" using lookup_loop_None [of ?c key 0] by simp
    then have "u_HT_check ?c key = 1" using u_HT_check_01 [of ?c key] by simp
    with Some chk lk show ?thesis by simp
  qed
  have zero: "HT_check sc t key = Inr 0 \<longleftrightarrow> u_lookup sc t key = Inr None"
    using chk lk lookup_loop_None [of ?c key 0] by (simp split: option.splits)
  have found: "\<exists>nx v. node_at (nodes t ! b) d = Some (HT_Node nx key v)
               \<and> HT_find sc t key = Inr v
               \<and> (\<forall>j<d. \<exists>nx' k' v'. node_at (nodes t ! b) j = Some (HT_Node nx' k' v')
                                       \<and> k' \<noteq> key)
               \<and> (\<forall>w. HT_change sc t key w =
                     Inr (t\<lparr>nodes := (nodes t)[b := set_value_at (nodes t ! b) d w]\<rparr>))"
    if p: "u_lookup sc t key = Inr (Some (b, d))" for b d
  proof -
    from p lk have bd: "b = unat h" "lookup_loop ?c key 0 = Some d"
      by (auto split: option.splits)
    from lookup_loop_Some [OF bd(2)] fnd bd(1) p show ?thesis
      by (simp add: HT_change_def)
  qed
  from one zero found show ?thesis by blast
qed

theorem scans_agree_witness:
  "HT_wf \<lparr>capacity = 1,
      nodes = [Some (HT_Node (Some (HT_Node (Some (HT_Node None [98] 3)) [98] 2)) [97] 1)]\<rparr>
   \<and> capacity \<lparr>capacity = 1,
      nodes = [Some (HT_Node (Some (HT_Node (Some (HT_Node None [98] 3)) [98] 2)) [97] 1)]\<rparr> \<noteq> 0
   \<and> HT_check False \<lparr>capacity = 1,
      nodes = [Some (HT_Node (Some (HT_Node (Some (HT_Node None [98] 3)) [98] 2)) [97] 1)]\<rparr>
        [98] = Inr 1
   \<and> u_lookup False \<lparr>capacity = 1,
      nodes = [Some (HT_Node (Some (HT_Node (Some (HT_Node None [98] 3)) [98] 2)) [97] 1)]\<rparr>
        [98] = Inr (Some (0, 1))
   \<and> node_at (Some (HT_Node (Some (HT_Node (Some (HT_Node None [98] 3)) [98] 2)) [97] 1)) 1
        = Some (HT_Node (Some (HT_Node None [98] 3)) [98] 2)
   \<and> HT_find False \<lparr>capacity = 1,
      nodes = [Some (HT_Node (Some (HT_Node (Some (HT_Node None [98] 3)) [98] 2)) [97] 1)]\<rparr>
        [98] = Inr 2
   \<and> HT_check False \<lparr>capacity = 1,
      nodes = [Some (HT_Node (Some (HT_Node (Some (HT_Node None [98] 3)) [98] 2)) [97] 1)]\<rparr>
        [99] = Inr 0
   \<and> u_lookup False \<lparr>capacity = 1,
      nodes = [Some (HT_Node (Some (HT_Node (Some (HT_Node None [98] 3)) [98] 2)) [97] 1)]\<rparr>
        [99] = Inr None"
  using scans_agree
    [of "\<lparr>capacity = 1,
      nodes = [Some (HT_Node (Some (HT_Node (Some (HT_Node None [98] 3)) [98] 2)) [97] 1)]\<rparr>"
      False "[98]"]
  by (simp add: HT_eval)

subsection \<open>Removal\<close>

text \<open>
  C10. When an entry with the key is in the chain, \<^verbatim>\<open>_HT_remove_node\<close> returns without
  dereferencing \<^verbatim>\<open>NULL\<close>; and so does \<open>remove\<close> on a table where \<open>check\<close> finds the
  key.
\<close>

theorem HT_remove_no_null_deref:
  "(key \<in> fst ` set (chain_entries c) \<longrightarrow> (\<exists>c'. u_HT_remove_node c key = Inr c'))
   \<and> (HT_wf t \<and> capacity t \<noteq> 0 \<and> HT_check sc t key = Inr 1 \<longrightarrow>
        (\<exists>t'. HT_remove sc t key = Inr t'))"
proof (intro conjI impI)
  assume "key \<in> fst ` set (chain_entries c)"
  then show "\<exists>c'. u_HT_remove_node c key = Inr c'" by (rule u_HT_remove_node_present)
next
  assume a: "HT_wf t \<and> capacity t \<noteq> 0 \<and> HT_check sc t key = Inr 1"
  then obtain h where
    h: "HT_hash sc key (capacity t) = Inr h" "h < capacity t"
    using hash_in_table [of t sc key] by blast
  have b: "bucket t h = Inr (nodes t ! unat h)" using a h(2) by (simp add: bucket_wf)
  then have "u_HT_check (nodes t ! unat h) key = 1"
    using a h(1) by (simp add: HT_check_def)
  then have "key \<in> fst ` set (chain_entries (nodes t ! unat h))"
    by (simp add: u_HT_check_present)
  then obtain c' where "u_HT_remove_node (nodes t ! unat h) key = Inr c'"
    using u_HT_remove_node_present by blast
  then show "\<exists>t'. HT_remove sc t key = Inr t'"
    using h(1) b by (simp add: HT_remove_def)
qed

theorem HT_remove_no_null_deref_witness:
  "[98] \<in> fst ` set (chain_entries (Some (HT_Node (Some (HT_Node None [98] 2)) [97] 1)))
   \<and> u_HT_remove_node (Some (HT_Node (Some (HT_Node None [98] 2)) [97] 1)) [98]
        = Inr (Some (HT_Node None [97] 1))
   \<and> HT_wf \<lparr>capacity = 1, nodes = [Some (HT_Node (Some (HT_Node None [98] 2)) [97] 1)]\<rparr>
   \<and> capacity \<lparr>capacity = 1, nodes = [Some (HT_Node (Some (HT_Node None [98] 2)) [97] 1)]\<rparr>
        \<noteq> 0
   \<and> HT_check False
        \<lparr>capacity = 1, nodes = [Some (HT_Node (Some (HT_Node None [98] 2)) [97] 1)]\<rparr> [98]
        = Inr 1
   \<and> (\<exists>t'. HT_remove False
        \<lparr>capacity = 1, nodes = [Some (HT_Node (Some (HT_Node None [98] 2)) [97] 1)]\<rparr> [98]
        = Inr t')
   \<and> HT_remove False
        \<lparr>capacity = 1, nodes = [Some (HT_Node (Some (HT_Node None [98] 2)) [97] 1)]\<rparr> [98]
        = Inr \<lparr>capacity = 1, nodes = [Some (HT_Node None [97] 1)]\<rparr>"
  using HT_remove_no_null_deref
    [of "[98]" "Some (HT_Node (Some (HT_Node None [98] 2)) [97] 1)"
      "\<lparr>capacity = 1, nodes = [Some (HT_Node (Some (HT_Node None [98] 2)) [97] 1)]\<rparr>" False]
  by (simp add: HT_eval)

text \<open>
  What the removal does to a chain. A match in the interior leaves the chain without its
  first matching entry (lemmas \<open>u_HT_remove_node_interior\<close> and \<open>HT_remove_interior\<close>).
  A match at the head sets the slot to \<^verbatim>\<open>NULL\<close>, whatever the successor of the head
  is: the whole chain leaves the bucket.
\<close>

lemma u_HT_remove_node_head: "u_HT_remove_node (Some (HT_Node nx key v)) key = Inr None"
  by simp

lemma HT_remove_head:
  assumes "HT_wf t" and "HT_hash sc key (capacity t) = Inr h" and "h < capacity t"
    and "nodes t ! unat h = Some (HT_Node nx key v)"
  shows "HT_remove sc t key = Inr (t\<lparr>nodes := (nodes t)[unat h := None]\<rparr>)"
  using assms by (simp add: HT_remove_def bucket_wf)

lemma HT_remove_interior:
  assumes "HT_wf t" and "HT_hash sc key (capacity t) = Inr h" and "h < capacity t"
    and "nodes t ! unat h = Some (HT_Node nx k v)" and "k \<noteq> key"
    and "key \<in> fst ` set (chain_entries nx)"
  shows "\<exists>t'. HT_remove sc t key = Inr t'
           \<and> chain_entries (nodes t' ! unat h) = remove_first key (chain_entries (nodes t ! unat h))
           \<and> capacity t' = capacity t
           \<and> length (nodes t') = length (nodes t)
           \<and> (\<forall>i. i \<noteq> unat h \<longrightarrow> nodes t' ! i = nodes t ! i)"
proof -
  from u_HT_remove_node_interior [OF assms(6,5), of v] obtain c' where
    c': "u_HT_remove_node (Some (HT_Node nx k v)) key = Inr c'"
    "chain_entries c' = remove_first key (chain_entries (Some (HT_Node nx k v)))"
    by blast
  have lt: "unat h < length (nodes t)"
    using assms(1,3) by (simp add: HT_wf_def word_less_nat_alt)
  have "HT_remove sc t key = Inr (t\<lparr>nodes := (nodes t)[unat h := c']\<rparr>)"
    using assms(1-4) c'(1) by (simp add: HT_remove_def bucket_wf)
  then show ?thesis using c'(2) assms(4) lt by simp
qed

text \<open>
  C1. The claim: \<open>remove\<close> unlinks exactly the first matching entry, and a match at the
  head of the chain makes the successor of the removed entry the new head. The code at
  the table built by \<open>create(1)\<close>, \<open>add("b", 2)\<close>, \<open>add("a", 1)\<close>: \<open>remove("a")\<close> leaves
  the bucket empty, where the claim leaves it the entry of \<open>"b"\<close>, and \<open>check("b")\<close> is
  false afterwards.
\<close>

theorem HT_remove_head_drops_chain:
  "HT_create 1 = Inr \<lparr>capacity = 1, nodes = [None]\<rparr>
   \<and> HT_add False \<lparr>capacity = 1, nodes = [None]\<rparr> [98] 2
       = Inr \<lparr>capacity = 1, nodes = [Some (HT_Node None [98] 2)]\<rparr>
   \<and> HT_add False \<lparr>capacity = 1, nodes = [Some (HT_Node None [98] 2)]\<rparr> [97] 1
       = Inr \<lparr>capacity = 1, nodes = [Some (HT_Node (Some (HT_Node None [98] 2)) [97] 1)]\<rparr>
   \<and> HT_remove False
         \<lparr>capacity = 1, nodes = [Some (HT_Node (Some (HT_Node None [98] 2)) [97] 1)]\<rparr> [97]
       = Inr \<lparr>capacity = 1, nodes = [None]\<rparr>
   \<and> remove_first [97] (chain_entries (Some (HT_Node (Some (HT_Node None [98] 2)) [97] 1)))
       = [([98], 2)]
   \<and> HT_check False \<lparr>capacity = 1, nodes = [None]\<rparr> [98] = Inr 0"
  by (simp add: HT_eval)

text \<open>
  C2. The claim: after \<open>add("x", 1)\<close>, \<open>add("x", 2)\<close> and one \<open>remove("x")\<close>, \<open>check("x")\<close>
  is still true and \<open>find("x") = 1\<close>. The code on the table of \<open>create(2)\<close>: the two
  insertions give \<open>find("x") = 2\<close>, and the removal empties the bucket: the table is
  again the one \<open>create(2)\<close> returned, on which \<open>check("x")\<close> is false and \<open>find("x")\<close>
  dereferences \<^verbatim>\<open>NULL\<close>.
\<close>

theorem HT_remove_shadowing_lost:
  "HT_create 2 = Inr \<lparr>capacity = 2, nodes = [None, None]\<rparr>
   \<and> HT_check True \<lparr>capacity = 2, nodes = [None, None]\<rparr> [120] = Inr 0
   \<and> HT_add True \<lparr>capacity = 2, nodes = [None, None]\<rparr> [120] 1
       = Inr \<lparr>capacity = 2, nodes = [Some (HT_Node None [120] 1), None]\<rparr>
   \<and> HT_add True \<lparr>capacity = 2, nodes = [Some (HT_Node None [120] 1), None]\<rparr> [120] 2
       = Inr \<lparr>capacity = 2,
              nodes = [Some (HT_Node (Some (HT_Node None [120] 1)) [120] 2), None]\<rparr>
   \<and> HT_find True
         \<lparr>capacity = 2, nodes = [Some (HT_Node (Some (HT_Node None [120] 1)) [120] 2), None]\<rparr>
         [120] = Inr 2
   \<and> HT_remove True
         \<lparr>capacity = 2, nodes = [Some (HT_Node (Some (HT_Node None [120] 1)) [120] 2), None]\<rparr>
         [120] = Inr \<lparr>capacity = 2, nodes = [None, None]\<rparr>
   \<and> HT_find True \<lparr>capacity = 2, nodes = [None, None]\<rparr> [120] = Inl Null_Deref"
  by (simp add: HT_eval replicate_two)

subsection \<open>Construction with capacity zero\<close>

text \<open>
  C3, as the claim states it, fails: \<open>create(0)\<close> is not rejected. It returns a table
  with capacity 0, and an insertion into that table divides by zero in the hash.
\<close>

theorem HT_create_zero_accepted:
  "HT_create 0 = Inr \<lparr>capacity = 0, nodes = []\<rparr>
   \<and> HT_add True \<lparr>capacity = 0, nodes = []\<rparr> [120] 1 = Inl Div_By_Zero"
  by (simp add: HT_eval)

text \<open>
  C3, amended. \<open>create(0)\<close> returns a table with capacity 0 and no bucket; on that table
  \<open>hash\<close>, \<open>check\<close>, \<open>find\<close>, \<open>add\<close>, \<open>change\<close> and \<open>remove\<close> fail for every key with a
  division by zero.
\<close>

theorem HT_create_no_validation:
  "HT_create 0 = Inr \<lparr>capacity = 0, nodes = []\<rparr>
   \<and> (\<forall>sc key v.
         HT_hash sc key (capacity \<lparr>capacity = 0, nodes = []\<rparr>) = Inl Div_By_Zero
         \<and> HT_check sc \<lparr>capacity = 0, nodes = []\<rparr> key = Inl Div_By_Zero
         \<and> HT_find sc \<lparr>capacity = 0, nodes = []\<rparr> key = Inl Div_By_Zero
         \<and> HT_add sc \<lparr>capacity = 0, nodes = []\<rparr> key v = Inl Div_By_Zero
         \<and> HT_change sc \<lparr>capacity = 0, nodes = []\<rparr> key v = Inl Div_By_Zero
         \<and> HT_remove sc \<lparr>capacity = 0, nodes = []\<rparr> key = Inl Div_By_Zero)"
  by (simp add: HT_eval)

end
